theory Spec2Isabelle
  imports Complex_Main "HOL-Library.Log_Nat"
begin

section \<open>The moving-average script: data model\<close>

text \<open>
  The script \<open>scripts/generate_moving_average.py\<close> reads a list of dictionaries
  \<open>{'date': str, 'production': float}\<close>, smooths the \<open>production\<close> column with
  \<open>compute_moving_average\<close> and writes the result back. Only
  \<open>compute_moving_average\<close> computes anything; it is embedded here.

  A row is a record with the two keys the script reads and writes. The type \<open>'f\<close> of
  the \<open>production\<close> values is left open: the values are Python floats, and the three
  float operations the function performs on them (the built-in \<open>sum\<close>, true division
  by the \<open>int\<close> \<open>len(window_values)\<close>, and \<open>round(_, 1)\<close>) are the fields of
  \<open>float_ops\<close>. Every theorem that quantifies over \<open>ops\<close> holds whatever these
  three operations compute.
\<close>

record 'f sample =
  date :: string
  production :: 'f

record 'f float_ops =
  fsum :: "'f list \<Rightarrow> 'f"
  fdiv :: "'f \<Rightarrow> int \<Rightarrow> 'f"
  fround1 :: "'f \<Rightarrow> 'f"

datatype py_error = ZeroDivisionError | IndexError | TypeError

subsection \<open>Python building blocks\<close>

text \<open>\<open>range(a, b)\<close>: the integers from \<open>a\<close> up to \<open>b - 1\<close>, none when \<open>b \<le> a\<close>.\<close>

definition py_range :: "int \<Rightarrow> int \<Rightarrow> int list" where
  "py_range a b = [a..b - 1]"

text \<open>\<open>xs[j]\<close>: a negative index counts from the end, an index out of range raises.\<close>

definition getitem :: "'a list \<Rightarrow> int \<Rightarrow> py_error + 'a" where
  "getitem xs j =
     (let n = int (length xs); k = (if j < 0 then j + n else j)
      in if 0 \<le> k \<and> k < n then Inr (xs ! nat k) else Inl IndexError)"

text \<open>\<open>[f(j) for j in js]\<close>: the first element that raises ends the comprehension.\<close>

fun comprehension :: "('a \<Rightarrow> py_error + 'b) \<Rightarrow> 'a list \<Rightarrow> py_error + 'b list" where
  "comprehension f [] = Inr []"
| "comprehension f (j # js) =
     (case f j of
        Inl e \<Rightarrow> Inl e
      | Inr y \<Rightarrow> (case comprehension f js of Inl e \<Rightarrow> Inl e | Inr ys \<Rightarrow> Inr (y # ys)))"

subsection \<open>\<open>compute_moving_average\<close>\<close>

text \<open>
  The three lines that determine the window of index \<open>i\<close>:
  \<^verbatim>\<open>
  half_window = window_size // 2
  start = max(0, i - half_window)
  end = min(len(data), start + window_size)
  \<close>
  Python's \<open>//\<close> on \<open>int\<close> is floor division, as \<open>div\<close> on \<open>int\<close> is; the integers
  are unbounded.
\<close>

definition half_window :: "int \<Rightarrow> int" where
  "half_window window_size = window_size div 2"

definition window_start :: "int \<Rightarrow> nat \<Rightarrow> int" where
  "window_start window_size i = max 0 (int i - half_window window_size)"

definition window_end :: "nat \<Rightarrow> int \<Rightarrow> nat \<Rightarrow> int" where
  "window_end n window_size i = min (int n) (window_start window_size i + window_size)"

text \<open>\<open>window_values = [data[j]['production'] for j in range(start, end)]\<close>\<close>

definition window_values :: "'f sample list \<Rightarrow> int \<Rightarrow> int \<Rightarrow> py_error + 'f list" where
  "window_values data start stop =
     comprehension
       (\<lambda>j. case getitem data j of Inl e \<Rightarrow> Inl e | Inr row \<Rightarrow> Inr (production row))
       (py_range start stop)"

text \<open>
  \<open>average = sum(window_values) / len(window_values)\<close>: on an empty list \<open>sum\<close>
  returns the \<open>int\<close> 0 and the division \<open>0 / 0\<close> raises \<open>ZeroDivisionError\<close>.
\<close>

definition average :: "'f float_ops \<Rightarrow> 'f list \<Rightarrow> py_error + 'f" where
  "average ops vs =
     (if length vs = 0 then Inl ZeroDivisionError
      else Inr (fdiv ops (fsum ops vs) (int (length vs))))"

text \<open>One pass through the body of the \<open>for\<close> loop: the row appended to \<open>result\<close>.\<close>

definition loop_body :: "'f float_ops \<Rightarrow> 'f sample list \<Rightarrow> int \<Rightarrow> nat \<Rightarrow> py_error + 'f sample" where
  "loop_body ops data window_size i =
     (let start = window_start window_size i;
          stop = window_end (length data) window_size i
      in case window_values data start stop of
           Inl e \<Rightarrow> Inl e
         | Inr vs \<Rightarrow>
             (case average ops vs of
                Inl e \<Rightarrow> Inl e
              | Inr a \<Rightarrow>
                  (case getitem data (int i) of
                     Inl e \<Rightarrow> Inl e
                   | Inr row \<Rightarrow> Inr \<lparr>date = date row, production = fround1 ops a\<rparr>)))"

text \<open>
  \<open>for i in range(len(data))\<close>, with \<open>result\<close> as the accumulator; an exception
  raised by the body leaves the loop.
\<close>

function for_loop ::
  "'f float_ops \<Rightarrow> 'f sample list \<Rightarrow> int \<Rightarrow> nat \<Rightarrow> 'f sample list \<Rightarrow> py_error + 'f sample list"
where
  "for_loop ops data window_size i result =
     (if i < length data then
        (case loop_body ops data window_size i of
           Inl e \<Rightarrow> Inl e
         | Inr row \<Rightarrow> for_loop ops data window_size (Suc i) (result @ [row]))
      else Inr result)"
  by pat_completeness auto
termination
  by (relation "measure (\<lambda>(ops, data, window_size, i, result). length data - i)") auto

declare for_loop.simps [simp del]

definition compute_moving_average ::
  "'f float_ops \<Rightarrow> 'f sample list \<Rightarrow> int \<Rightarrow> py_error + 'f sample list" where
  "compute_moving_average ops data window_size = for_loop ops data window_size 0 []"

subsection \<open>The algorithm as the specification words it\<close>

text \<open>
  \<open>series[start:end]\<close> for \<open>0 \<le> start\<close> and \<open>0 \<le> end\<close>: the elements from index \<open>start\<close>
  up to, not including, index \<open>end\<close>, clamped to the list.
\<close>

definition slice :: "'a list \<Rightarrow> int \<Rightarrow> int \<Rightarrow> 'a list" where
  "slice xs a b = take (nat (b - a)) (drop (nat a) xs)"

text \<open>
  The six steps of the contract: \<open>half = w / 2\<close> (floor), \<open>start = max(0, i - half)\<close>,
  \<open>end = min(len(series), start + w)\<close>, the window \<open>series[start:end]\<close>, the average
  \<open>sum / count\<close> of its values, rounded to one decimal place.
\<close>

definition spec_value :: "'f float_ops \<Rightarrow> 'f sample list \<Rightarrow> int \<Rightarrow> nat \<Rightarrow> 'f" where
  "spec_value ops series w i =
     (let half = w div 2;
          start = max 0 (int i - half);
          stop = min (int (length series)) (start + w);
          window = slice series start stop
      in fround1 ops (fdiv ops (fsum ops (map production window)) (int (length window))))"

text \<open>The average of all values of the series, rounded: \<open>round(sum(all)/len(series), 1)\<close>.\<close>

definition global_average :: "'f float_ops \<Rightarrow> 'f sample list \<Rightarrow> 'f" where
  "global_average ops series =
     fround1 ops (fdiv ops (fsum ops (map production series)) (int (length series)))"

text \<open>The same operations with \<open>round\<close> taken out, and \<open>round\<close> applied to one row.\<close>

definition without_rounding :: "'f float_ops \<Rightarrow> 'f float_ops" where
  "without_rounding ops = ops\<lparr>fround1 := (\<lambda>x. x)\<rparr>"

definition round_row :: "'f float_ops \<Rightarrow> 'f sample \<Rightarrow> 'f sample" where
  "round_row ops row = row\<lparr>production := fround1 ops (production row)\<rparr>"

subsection \<open>Float arithmetic on concrete values\<close>

text \<open>
  Where a property names concrete numbers, a float is read as the rational it denotes.
  \<open>binary64\<close> holds of the rationals that are finite IEEE 754 double-precision values:
  an integer significand below \<open>2 ^ 53\<close> in magnitude, scaled by a power of two with
  exponent from \<open>-1074\<close> to \<open>971\<close>.

  \<open>ieee_exact\<close> states the only facts about Python's float arithmetic that are used:
  an operation whose exact result is a double returns that result.
  \<^item> \<open>sum\<close> adds from the \<open>int\<close> 0, left to right; when the accumulator, each element
    and each partial sum are doubles, every addition is exact (so is the compensated
    summation of newer interpreters, whose correction terms are then all zero).
  \<^item> \<open>x / n\<close> converts the \<open>int\<close> \<open>n\<close> (exactly, up to \<open>2 ^ 53\<close>) and divides with
    correct rounding.
  \<^item> \<open>round(x, 1)\<close> returns the double nearest to the one-decimal rounding of \<open>x\<close>;
    when \<open>x\<close> itself has at most one decimal that is \<open>x\<close>.
\<close>

definition binary64 :: "rat \<Rightarrow> bool" where
  "binary64 q \<longleftrightarrow>
     (\<exists>m e. \<bar>m\<bar> < 2 ^ 53 \<and> - 1074 \<le> e \<and> e \<le> 971 \<and>
        q = of_int m * (if 0 \<le> e then 2 ^ nat e else 1 / 2 ^ nat (- e)))"

fun partial_sums_exact :: "rat \<Rightarrow> rat list \<Rightarrow> bool" where
  "partial_sums_exact acc [] = binary64 acc"
| "partial_sums_exact acc (v # vs) =
     (binary64 acc \<and> binary64 v \<and> partial_sums_exact (acc + v) vs)"

definition ieee_exact :: "rat float_ops \<Rightarrow> bool" where
  "ieee_exact ops \<longleftrightarrow>
     (\<forall>vs. partial_sums_exact 0 vs \<longrightarrow> fsum ops vs = sum_list vs) \<and>
     (\<forall>x n. n \<noteq> 0 \<and> \<bar>n\<bar> \<le> 2 ^ 53 \<and> binary64 x \<and> binary64 (x / of_int n)
        \<longrightarrow> fdiv ops x n = x / of_int n) \<and>
     (\<forall>x. binary64 x \<and> 10 * x \<in> \<int> \<longrightarrow> fround1 ops x = x)"

text \<open>
  Exact rational arithmetic, with rounding to one decimal, ties to the even digit. It
  satisfies \<open>ieee_exact\<close> and serves to evaluate the function on concrete series whose
  sums and averages are doubles.
\<close>

definition round_half_even1 :: "rat \<Rightarrow> rat" where
  "round_half_even1 x =
     (let y = 10 * x; f = \<lfloor>y\<rfloor>; r = y - of_int f
      in of_int (if r < 1 / 2 then f else if 1 / 2 < r then f + 1
                 else if even f then f else f + 1) / 10)"

definition exact_ops :: "rat float_ops" where
  "exact_ops = \<lparr>fsum = sum_list, fdiv = (\<lambda>x n. x / of_int n), fround1 = round_half_even1\<rparr>"

text \<open>The series of the regression example: values 1 to 6, labels \<open>d0\<close> to \<open>d5\<close>.\<close>

definition series6 :: "rat sample list" where
  "series6 =
     [\<lparr>date = ''d0'', production = 1\<rparr>, \<lparr>date = ''d1'', production = 2\<rparr>,
      \<lparr>date = ''d2'', production = 3\<rparr>, \<lparr>date = ''d3'', production = 4\<rparr>,
      \<lparr>date = ''d4'', production = 5\<rparr>, \<lparr>date = ''d5'', production = 6\<rparr>]"

subsection \<open>The rounding rule of \<open>round(_, 1)\<close>\<close>

text \<open>
  \<open>window_mean\<close> is the value that \<open>round\<close> is applied to: the quotient of the sum of
  the input values in the window by their number.
\<close>

definition window_mean :: "'f float_ops \<Rightarrow> 'f sample list \<Rightarrow> int \<Rightarrow> nat \<Rightarrow> 'f" where
  "window_mean ops data w i =
     (let window = slice data (window_start w i) (window_end (length data) w i)
      in fdiv ops (fsum ops (map production window)) (int (length window)))"

text \<open>
  Python's \<open>round(x, 1)\<close> on a float takes the exact value of \<open>x\<close>, rounds it to one
  decimal digit, a tie going to the even digit, and returns the double nearest to that
  decimal. Both steps are stated as relations: \<open>rounds_half_even1 x d\<close> says that \<open>d\<close> has
  one decimal digit, is nearest to \<open>x\<close> among such numbers, and ends in an even digit
  when \<open>x\<close> lies halfway; \<open>nearest_binary64 d v\<close> says that \<open>v\<close> is a double and no double
  is closer to \<open>d\<close>. \<open>python_round\<close> is this rule, for the finite doubles.
\<close>

definition rounds_half_even1 :: "rat \<Rightarrow> rat \<Rightarrow> bool" where
  "rounds_half_even1 x d \<longleftrightarrow>
     10 * d \<in> \<int> \<and> \<bar>x - d\<bar> \<le> 1 / 20 \<and> (\<bar>x - d\<bar> = 1 / 20 \<longrightarrow> even \<lfloor>10 * d\<rfloor>)"

definition nearest_binary64 :: "rat \<Rightarrow> rat \<Rightarrow> bool" where
  "nearest_binary64 d v \<longleftrightarrow> binary64 v \<and> (\<forall>z. binary64 z \<longrightarrow> \<bar>v - d\<bar> \<le> \<bar>z - d\<bar>)"

definition python_round :: "rat float_ops \<Rightarrow> bool" where
  "python_round ops \<longleftrightarrow>
     (\<forall>x. binary64 x \<longrightarrow> (\<exists>d. rounds_half_even1 x d \<and> nearest_binary64 d (fround1 ops x)))"

text \<open>
  A function that computes the rule. \<open>to_binary64\<close> rounds a rational to the nearest
  double, a tie going to the even significand: with \<open>2 ^ k \<le> |x| < 2 ^ (k + 1)\<close> the
  doubles around \<open>x\<close> are the multiples of \<open>2 ^ e\<close>, \<open>e = max (k - 52) (-1074)\<close>.
  \<open>max_binary64\<close> is the largest finite double.
\<close>

definition pow2 :: "int \<Rightarrow> rat" where
  "pow2 e = (if 0 \<le> e then 2 ^ nat e else 1 / 2 ^ nat (- e))"

definition floor_log2 :: "rat \<Rightarrow> int" where
  "floor_log2 a = (if 1 \<le> a then bitlen \<lfloor>a\<rfloor> - 1 else - bitlen (\<lceil>1 / a\<rceil> - 1))"

definition round_half_even :: "rat \<Rightarrow> int" where
  "round_half_even y =
     (let f = \<lfloor>y\<rfloor>; r = y - of_int f
      in if r < 1 / 2 then f else if 1 / 2 < r then f + 1 else if even f then f else f + 1)"

definition to_binary64 :: "rat \<Rightarrow> rat" where
  "to_binary64 x =
     (if x = 0 then 0
      else let e = max (floor_log2 \<bar>x\<bar> - 52) (- 1074)
           in of_int (round_half_even (x / pow2 e)) * pow2 e)"

definition max_binary64 :: rat where
  "max_binary64 = (2 ^ 53 - 1) * 2 ^ 971"

definition py_round1 :: "rat \<Rightarrow> rat" where
  "py_round1 x = to_binary64 (round_half_even1 x)"

text \<open>Exact sums and quotients with this \<open>round\<close>, and a series whose mean is a tie.\<close>

definition python_ops :: "rat float_ops" where
  "python_ops = \<lparr>fsum = sum_list, fdiv = (\<lambda>x n. x / of_int n), fround1 = py_round1\<rparr>"

definition series_tie :: "rat sample list" where
  "series_tie = [\<lparr>date = ''d0'', production = 0\<rparr>, \<lparr>date = ''d1'', production = 1 / 2\<rparr>]"

subsection \<open>The function over a store of objects\<close>

text \<open>
  Python passes \<open>data\<close> by reference: the list and the dictionaries in it are objects
  that the caller still holds after the call. To state what the call does to them the
  function is embedded a second time over an explicit store. An object is a list of
  references or a row dictionary; strings and floats are immutable values and are kept
  inside the row. The store is the list of all objects, an address is an index into
  it, and creating an object appends it, as a new object is never an existing one.
\<close>

type_synonym addr = nat

datatype 'f pyobj = ListObj "addr list" | DictObj "'f sample"

type_synonym 'f heap = "'f pyobj list"

definition alloc :: "'f heap \<Rightarrow> 'f pyobj \<Rightarrow> addr \<times> 'f heap" where
  "alloc h obj = (length h, h @ [obj])"

text \<open>
  Reading an object as a list or as a row. The input is a list of rows; an address
  that holds the other kind of object, or none, is reported as \<open>TypeError\<close>.
\<close>

definition heap_list :: "'f heap \<Rightarrow> addr \<Rightarrow> py_error + addr list" where
  "heap_list h a =
     (if a < length h then (case h ! a of ListObj as \<Rightarrow> Inr as | DictObj row \<Rightarrow> Inl TypeError)
      else Inl TypeError)"

definition heap_dict :: "'f heap \<Rightarrow> addr \<Rightarrow> py_error + 'f sample" where
  "heap_dict h a =
     (if a < length h then (case h ! a of DictObj row \<Rightarrow> Inr row | ListObj as \<Rightarrow> Inl TypeError)
      else Inl TypeError)"

text \<open>The series a list object denotes: its rows, read through the store.\<close>

definition read_series :: "'f heap \<Rightarrow> addr \<Rightarrow> py_error + 'f sample list" where
  "read_series h a =
     (case heap_list h a of Inl e \<Rightarrow> Inl e | Inr as \<Rightarrow> comprehension (heap_dict h) as)"

text \<open>\<open>[data[j]['production'] for j in range(start, end)]\<close>, each row read through the store.\<close>

definition window_values_heap :: "'f heap \<Rightarrow> addr list \<Rightarrow> int \<Rightarrow> int \<Rightarrow> py_error + 'f list" where
  "window_values_heap h rows start stop =
     comprehension
       (\<lambda>j. case getitem rows j of
               Inl e \<Rightarrow> Inl e
             | Inr a \<Rightarrow> (case heap_dict h a of Inl e \<Rightarrow> Inl e | Inr row \<Rightarrow> Inr (production row)))
       (py_range start stop)"

text \<open>\<open>l.append(a)\<close>: the list object at \<open>l\<close> is updated in place.\<close>

definition append_heap :: "'f heap \<Rightarrow> addr \<Rightarrow> addr \<Rightarrow> py_error + 'f heap" where
  "append_heap h l a =
     (case heap_list h l of Inl e \<Rightarrow> Inl e | Inr as \<Rightarrow> Inr (h[l := ListObj (as @ [a])]))"

text \<open>
  The loop body: it reads \<open>data\<close> and its rows, creates the new row dictionary and
  appends its address to the list at \<open>result\<close>.
\<close>

definition loop_body_heap ::
  "'f float_ops \<Rightarrow> 'f heap \<Rightarrow> addr \<Rightarrow> addr \<Rightarrow> int \<Rightarrow> nat \<Rightarrow> py_error + 'f heap" where
  "loop_body_heap ops h data result window_size i =
     (case heap_list h data of
        Inl e \<Rightarrow> Inl e
      | Inr rows \<Rightarrow>
          (let start = window_start window_size i;
               stop = window_end (length rows) window_size i
           in case window_values_heap h rows start stop of
                Inl e \<Rightarrow> Inl e
              | Inr vs \<Rightarrow>
                  (case average ops vs of
                     Inl e \<Rightarrow> Inl e
                   | Inr a \<Rightarrow>
                       (case getitem rows (int i) of
                          Inl e \<Rightarrow> Inl e
                        | Inr ra \<Rightarrow>
                            (case heap_dict h ra of
                               Inl e \<Rightarrow> Inl e
                             | Inr row \<Rightarrow>
                                 (case alloc h (DictObj \<lparr>date = date row, production = fround1 ops a\<rparr>) of
                                    (d, h') \<Rightarrow> append_heap h' result d))))))"

text \<open>\<open>for i in range(len(data))\<close>: the bound \<open>n\<close> is taken once, before the loop.\<close>

function for_loop_heap ::
  "'f float_ops \<Rightarrow> 'f heap \<Rightarrow> addr \<Rightarrow> addr \<Rightarrow> int \<Rightarrow> nat \<Rightarrow> nat \<Rightarrow> py_error + 'f heap"
where
  "for_loop_heap ops h data result window_size n i =
     (if i < n then
        (case loop_body_heap ops h data result window_size i of
           Inl e \<Rightarrow> Inl e
         | Inr h' \<Rightarrow> for_loop_heap ops h' data result window_size n (Suc i))
      else Inr h)"
  by pat_completeness auto
termination
  by (relation "measure (\<lambda>(ops, h, data, result, window_size, n, i). n - i)") auto

declare for_loop_heap.simps [simp del]

text \<open>\<open>result = []\<close> creates the output list; the call returns its address and the store.\<close>

definition compute_moving_average_heap ::
  "'f float_ops \<Rightarrow> 'f heap \<Rightarrow> addr \<Rightarrow> int \<Rightarrow> py_error + addr \<times> 'f heap" where
  "compute_moving_average_heap ops h data window_size =
     (case alloc h (ListObj []) of
        (result, h0) \<Rightarrow>
          (case heap_list h0 data of
             Inl e \<Rightarrow> Inl e
           | Inr rows \<Rightarrow>
               (case for_loop_heap ops h0 data result window_size (length rows) 0 of
                  Inl e \<Rightarrow> Inl e
                | Inr h' \<Rightarrow> Inr (result, h'))))"

text \<open>
  The store after the call on \<open>h\<close> has produced the rows \<open>out\<close>: \<open>h\<close> itself, then the
  output list, then one dictionary per output row.
\<close>

definition heap_after :: "'f heap \<Rightarrow> 'f sample list \<Rightarrow> 'f heap" where
  "heap_after h out =
     h @ [ListObj (map (\<lambda>k. Suc (length h) + k) [0..<length out])] @ map DictObj out"

text \<open>A store holding a series of two rows, the list at address 2.\<close>

definition series2 :: "rat sample list" where
  "series2 = [\<lparr>date = ''d0'', production = 1\<rparr>, \<lparr>date = ''d1'', production = 2\<rparr>]"

definition heap2 :: "rat heap" where
  "heap2 = [DictObj \<lparr>date = ''d0'', production = 1\<rparr>, DictObj \<lparr>date = ''d1'', production = 2\<rparr>,
            ListObj [0, 1]]"

section \<open>Properties\<close>

subsection \<open>Window bounds\<close>

lemma window_start_nonneg: "0 \<le> window_start w i"
  by (simp add: window_start_def)

lemma window_end_le_length: "window_end n w i \<le> int n"
  by (simp add: window_end_def)

lemma window_start_le_index: "0 \<le> w \<Longrightarrow> window_start w i \<le> int i"
  unfolding window_start_def half_window_def by (simp add: pos_imp_zdiv_nonneg_iff)

lemma index_less_window_end:
  assumes "1 \<le> w" and "i < n"
  shows "int i < window_end n w i"
proof -
  have "w div 2 < w" using assms(1) by simp
  then have "int i < max 0 (int i - w div 2) + w" by linarith
  with assms(2) show ?thesis
    by (simp add: window_end_def window_start_def half_window_def)
qed

lemma window_start_less_end:
  assumes "1 \<le> w" and "i < n"
  shows "window_start w i < window_end n w i"
  using window_start_le_index [of w i] index_less_window_end [OF assms] assms(1) by linarith

subsection \<open>The window is a slice of the series\<close>

lemma getitem_in_range:
  "0 \<le> j \<Longrightarrow> j < int (length xs) \<Longrightarrow> getitem xs j = Inr (xs ! nat j)"
  by (simp add: getitem_def Let_def)

lemma comprehension_total:
  "(\<And>j. j \<in> set js \<Longrightarrow> f j = Inr (g j)) \<Longrightarrow> comprehension f js = Inr (map g js)"
  by (induction js) simp_all

lemma length_slice:
  "0 \<le> a \<Longrightarrow> b \<le> int (length xs) \<Longrightarrow> length (slice xs a b) = nat (b - a)"
  by (auto simp: slice_def)

lemma nth_slice:
  assumes "0 \<le> a" and "b \<le> int (length xs)" and "int k < b - a"
  shows "slice xs a b ! k = xs ! (nat a + k)"
  using assms by (simp add: slice_def)

lemma map_nth_range_slice:
  assumes "0 \<le> a" and "b \<le> int (length xs)"
  shows "map (\<lambda>j. xs ! nat j) (py_range a b) = slice xs a b"
proof (rule nth_equalityI)
  show "length (map (\<lambda>j. xs ! nat j) (py_range a b)) = length (slice xs a b)"
    using assms by (simp add: py_range_def slice_def)
next
  fix k assume "k < length (map (\<lambda>j. xs ! nat j) (py_range a b))"
  then have k: "int k < b - a" by (simp add: py_range_def)
  then have "py_range a b ! k = a + int k"
    by (simp add: py_range_def)
  moreover have "nat (a + int k) = nat a + k" using assms(1) by (simp add: nat_add_distrib)
  ultimately show "map (\<lambda>j. xs ! nat j) (py_range a b) ! k = slice xs a b ! k"
    using k assms by (simp add: slice_def py_range_def)
qed

lemma window_values_slice:
  assumes "0 \<le> a" and "b \<le> int (length data)"
  shows "window_values data a b = Inr (map production (slice data a b))"
proof -
  have "window_values data a b = Inr (map (\<lambda>j. production (data ! nat j)) (py_range a b))"
    unfolding window_values_def
  proof (rule comprehension_total)
    fix j assume "j \<in> set (py_range a b)"
    then have "0 \<le> j" "j < int (length data)" using assms by (auto simp: py_range_def)
    then show "(case getitem data j of Inl e \<Rightarrow> Inl e | Inr row \<Rightarrow> Inr (production row))
        = Inr (production (data ! nat j))"
      by (simp add: getitem_in_range)
  qed
  also have "map (\<lambda>j. production (data ! nat j)) (py_range a b)
      = map production (map (\<lambda>j. data ! nat j) (py_range a b))"
    by simp
  finally show ?thesis using assms by (simp only: map_nth_range_slice)
qed

lemma slice_single:
  assumes "i < length xs"
  shows "slice xs (int i) (int i + 1) = [xs ! i]"
proof -
  have "take 1 (drop i xs) = [xs ! i]"
    using Cons_nth_drop_Suc [OF assms, symmetric] by simp
  then show ?thesis by (simp add: slice_def)
qed

subsection \<open>The loop computes the specified rows\<close>

lemma spec_value_window:
  "spec_value ops data w i =
     fround1 ops (fdiv ops
       (fsum ops (map production (slice data (window_start w i) (window_end (length data) w i))))
       (int (length (slice data (window_start w i) (window_end (length data) w i)))))"
  by (simp add: spec_value_def Let_def window_start_def window_end_def half_window_def)

lemma loop_body_ok:
  assumes "1 \<le> w" and "i < length data"
  shows "loop_body ops data w i = Inr \<lparr>date = date (data ! i), production = spec_value ops data w i\<rparr>"
proof -
  let ?a = "window_start w i" and ?b = "window_end (length data) w i"
  have vs: "window_values data ?a ?b = Inr (map production (slice data ?a ?b))"
    by (rule window_values_slice [OF window_start_nonneg window_end_le_length])
  have "?a < ?b"
    using window_start_le_index [of w i] index_less_window_end [OF assms] assms(1) by linarith
  then have len: "length (slice data ?a ?b) \<noteq> 0"
    by (simp add: length_slice window_start_nonneg window_end_le_length)
  have row: "getitem data (int i) = Inr (data ! i)"
    using assms(2) by (simp add: getitem_in_range)
  show ?thesis
    using len by (simp add: loop_body_def Let_def vs average_def row spec_value_window)
qed

lemma for_loop_all_ok:
  assumes "\<And>k. i \<le> k \<Longrightarrow> k < length data \<Longrightarrow> loop_body ops data w k = Inr (g k)"
  shows "for_loop ops data w i result = Inr (result @ map g [i..<length data])"
  using assms
proof (induction ops data w i result rule: for_loop.induct)
  case (1 ops data w i result)
  show ?case
  proof (cases "i < length data")
    case True
    have body: "loop_body ops data w i = Inr (g i)" using "1.prems" True by simp
    have "for_loop ops data w (Suc i) (result @ [g i])
        = Inr ((result @ [g i]) @ map g [Suc i..<length data])"
      using "1.IH" [OF True body] "1.prems" by simp
    then show ?thesis
      using True body by (simp add: for_loop.simps [of ops data w i] upt_conv_Cons)
  next
    case False
    then show ?thesis by (simp add: for_loop.simps [of ops data w i])
  qed
qed

lemma compute_moving_average_rows:
  assumes "1 \<le> w"
  shows "compute_moving_average ops data w =
     Inr (map (\<lambda>i. \<lparr>date = date (data ! i), production = spec_value ops data w i\<rparr>) [0..<length data])"
proof -
  have "for_loop ops data w 0 [] =
      Inr ([] @ map (\<lambda>i. \<lparr>date = date (data ! i), production = spec_value ops data w i\<rparr>)
                  [0..<length data])"
    by (rule for_loop_all_ok) (rule loop_body_ok [OF assms])
  then show ?thesis by (simp add: compute_moving_average_def)
qed

subsection \<open>Facts about the arithmetic on concrete values\<close>

lemma round_half_even1_fixed:
  assumes "10 * x \<in> \<int>"
  shows "round_half_even1 x = x"
proof -
  from assms obtain k :: int where k: "10 * x = of_int k"
    by (auto elim: Ints_cases)
  then have x: "x = of_int k / 10" by simp
  have "round_half_even1 (of_int k / 10) = of_int k / 10"
    by (simp add: round_half_even1_def Let_def)
  then show ?thesis by (simp only: x)
qed

lemma ieee_exact_exact_ops: "ieee_exact exact_ops"
  by (simp add: ieee_exact_def exact_ops_def round_half_even1_fixed)

lemma ieee_exact_fsum:
  "ieee_exact ops \<Longrightarrow> partial_sums_exact 0 vs \<Longrightarrow> fsum ops vs = sum_list vs"
  by (simp add: ieee_exact_def)

lemma ieee_exact_fdiv:
  "ieee_exact ops \<Longrightarrow> n \<noteq> 0 \<Longrightarrow> \<bar>n\<bar> \<le> 2 ^ 53 \<Longrightarrow> binary64 x \<Longrightarrow> binary64 (x / of_int n)
     \<Longrightarrow> fdiv ops x n = x / of_int n"
  by (simp add: ieee_exact_def)

lemma ieee_exact_fround1:
  "ieee_exact ops \<Longrightarrow> binary64 x \<Longrightarrow> 10 * x \<in> \<int> \<Longrightarrow> fround1 ops x = x"
  by (simp add: ieee_exact_def)

lemma binary64_of_int: "\<bar>m\<bar> < 2 ^ 53 \<Longrightarrow> binary64 (of_int m)"
  unfolding binary64_def by (rule exI [of _ m], rule exI [of _ 0]) simp

lemma binary64_halves: "\<bar>m\<bar> < 2 ^ 53 \<Longrightarrow> binary64 (of_int m / 2)"
  unfolding binary64_def by (rule exI [of _ m], rule exI [of _ "- 1"]) simp

lemma binary64_small:
  "binary64 0" "binary64 1" "binary64 2" "binary64 3" "binary64 4" "binary64 5"
  "binary64 6" "binary64 9" "binary64 10" "binary64 15" "binary64 (5 / 2)"
  using binary64_of_int [of 0] binary64_of_int [of 1] binary64_of_int [of 2]
    binary64_of_int [of 3] binary64_of_int [of 4] binary64_of_int [of 5]
    binary64_of_int [of 6] binary64_of_int [of 9] binary64_of_int [of 10]
    binary64_of_int [of 15] binary64_halves [of 5]
  by simp_all

lemma series6_binary64: "\<forall>row \<in> set series6. binary64 (production row)"
  by (simp add: series6_def binary64_small)

lemma mean_1234:
  assumes "ieee_exact ops"
  shows "fround1 ops (fdiv ops (fsum ops [1, 2, 3, 4]) 4) = 5 / 2"
proof -
  have s: "fsum ops [1, 2, 3, 4] = 10"
    using ieee_exact_fsum [OF assms, of "[1, 2, 3, 4]"] by (simp add: binary64_small)
  have d: "fdiv ops 10 4 = 5 / 2"
    using ieee_exact_fdiv [OF assms, of 4 10] by (simp add: binary64_small)
  have r: "fround1 ops (5 / 2) = 5 / 2"
    using ieee_exact_fround1 [OF assms, of "5 / 2"] by (simp add: binary64_small)
  show ?thesis by (simp add: s d r)
qed

lemma mean_456:
  assumes "ieee_exact ops"
  shows "fround1 ops (fdiv ops (fsum ops [4, 5, 6]) 3) = 5"
proof -
  have s: "fsum ops [4, 5, 6] = 15"
    using ieee_exact_fsum [OF assms, of "[4, 5, 6]"] by (simp add: binary64_small)
  have d: "fdiv ops 15 3 = 5"
    using ieee_exact_fdiv [OF assms, of 3 15] by (simp add: binary64_small)
  have r: "fround1 ops 5 = 5"
    using ieee_exact_fround1 [OF assms, of 5] by (simp add: binary64_small)
  show ?thesis by (simp add: s d r)
qed

subsection \<open>Special windows\<close>

lemma spec_value_saturated:
  assumes "int (length data) \<le> w" and "int i \<le> w div 2"
  shows "spec_value ops data w i = global_average ops data"
proof -
  have a: "window_start w i = 0"
    using assms(2) by (simp add: window_start_def half_window_def)
  have b: "window_end (length data) w i = int (length data)"
    using assms(1) by (simp add: window_end_def a)
  show ?thesis
    by (simp add: spec_value_window a b slice_def global_average_def)
qed

lemma spec_value_window_one:
  assumes "i < length data"
  shows "spec_value ops data 1 i =
     fround1 ops (fdiv ops (fsum ops [production (data ! i)]) 1)"
proof -
  have a: "window_start 1 i = int i"
    by (simp add: window_start_def half_window_def)
  have b: "window_end (length data) 1 i = int i + 1"
    using assms by (simp add: window_end_def a)
  show ?thesis
    by (simp add: spec_value_window a b slice_single [OF assms])
qed

subsection \<open>Rounding commutes with the loop\<close>

lemma loop_body_rounding:
  "loop_body ops data w i =
     (case loop_body (without_rounding ops) data w i of
        Inl e \<Rightarrow> Inl e | Inr row \<Rightarrow> Inr (round_row ops row))"
  by (simp add: loop_body_def Let_def average_def without_rounding_def round_row_def
      split: sum.splits)

lemma for_loop_rounding:
  "for_loop ops data w i (map (round_row ops) result) =
     (case for_loop (without_rounding ops) data w i result of
        Inl e \<Rightarrow> Inl e | Inr out \<Rightarrow> Inr (map (round_row ops) out))"
proof (induction "without_rounding ops" data w i result rule: for_loop.induct)
  case (1 data w i result)
  show ?case
  proof (cases "i < length data")
    case False
    then show ?thesis
      by (simp add: for_loop.simps [of _ data w i])
  next
    case True
    show ?thesis
    proof (cases "loop_body (without_rounding ops) data w i")
      case (Inl e)
      with True show ?thesis
        by (simp add: for_loop.simps [of _ data w i] loop_body_rounding [of ops])
    next
      case (Inr row)
      have "for_loop ops data w (Suc i) (map (round_row ops) (result @ [row])) =
          (case for_loop (without_rounding ops) data w (Suc i) (result @ [row]) of
             Inl e \<Rightarrow> Inl e | Inr out \<Rightarrow> Inr (map (round_row ops) out))"
        using "1.hyps" [OF True Inr] .
      with True Inr show ?thesis
        by (simp add: for_loop.simps [of _ data w i] loop_body_rounding [of ops])
    qed
  qed
qed

subsection \<open>The store-level function refines the list-level one\<close>

lemma comprehension_cong:
  "(\<And>j. j \<in> set js \<Longrightarrow> f j = g j) \<Longrightarrow> comprehension f js = comprehension g js"
proof (induction js)
  case Nil
  show ?case by simp
next
  case (Cons a js)
  have fa: "f a = g a" by (rule Cons.prems) simp
  have ih: "comprehension f js = comprehension g js"
    by (rule Cons.IH) (simp add: Cons.prems)
  show ?case by (simp only: comprehension.simps fa ih)
qed

lemma comprehension_InrD:
  "comprehension f xs = Inr ys \<Longrightarrow>
     length ys = length xs \<and> (\<forall>k<length xs. f (xs ! k) = Inr (ys ! k))"
proof (induction xs arbitrary: ys)
  case Nil
  then show ?case by simp
next
  case (Cons x xs)
  from Cons.prems obtain y zs where y: "f x = Inr y" and zs: "comprehension f xs = Inr zs"
    and ys: "ys = y # zs"
    by (auto split: sum.splits)
  from Cons.IH [OF zs] have ih: "length zs = length xs" "\<forall>k<length xs. f (xs ! k) = Inr (zs ! k)"
    by simp_all
  show ?case
  proof (intro conjI allI impI)
    show "length ys = length (x # xs)" using ih(1) ys by simp
  next
    fix k assume "k < length (x # xs)"
    then show "f ((x # xs) ! k) = Inr (ys ! k)"
      using y ih(2) ys by (cases k) simp_all
  qed
qed

lemma heap_list_append: "a < length h \<Longrightarrow> heap_list (h @ xs) a = heap_list h a"
  by (simp add: heap_list_def nth_append)

lemma heap_dict_append: "a < length h \<Longrightarrow> heap_dict (h @ xs) a = heap_dict h a"
  by (simp add: heap_dict_def nth_append)

lemma heap_list_InrD: "heap_list h a = Inr as \<Longrightarrow> a < length h \<and> h ! a = ListObj as"
  by (auto simp: heap_list_def split: if_splits pyobj.splits)

lemma heap_dict_InrD: "heap_dict h a = Inr row \<Longrightarrow> a < length h \<and> h ! a = DictObj row"
  by (auto simp: heap_dict_def split: if_splits pyobj.splits)

lemma read_series_InrD:
  assumes "read_series h data = Inr series"
  shows "\<exists>rows. heap_list h data = Inr rows \<and> length rows = length series \<and>
           (\<forall>k<length rows. heap_dict h (rows ! k) = Inr (series ! k))"
proof -
  from assms obtain rows where rows: "heap_list h data = Inr rows"
    and c: "comprehension (heap_dict h) rows = Inr series"
    by (auto simp: read_series_def split: sum.splits)
  from comprehension_InrD [OF c] rows show ?thesis by simp
qed

lemma read_series_append:
  assumes "read_series h data = Inr series"
  shows "read_series (h @ xs) data = Inr series"
proof -
  from assms obtain rows where rows: "heap_list h data = Inr rows"
    and c: "comprehension (heap_dict h) rows = Inr series"
    by (auto simp: read_series_def split: sum.splits)
  have d: "data < length h" using heap_list_InrD [OF rows] by simp
  have "comprehension (heap_dict (h @ xs)) rows = comprehension (heap_dict h) rows"
  proof (rule comprehension_cong)
    fix a assume "a \<in> set rows"
    then obtain k where k: "k < length rows" "a = rows ! k" by (auto simp: in_set_conv_nth)
    with comprehension_InrD [OF c] have "heap_dict h a = Inr (series ! k)" by simp
    then have "a < length h" using heap_dict_InrD by blast
    then show "heap_dict (h @ xs) a = heap_dict h a" by (rule heap_dict_append)
  qed
  with rows c d show ?thesis by (simp add: read_series_def heap_list_append)
qed

lemma window_values_heap_refines:
  assumes "length rows = length series"
    and "\<forall>k<length rows. heap_dict h (rows ! k) = Inr (series ! k)"
  shows "window_values_heap h rows a b = window_values series a b"
  unfolding window_values_heap_def window_values_def
proof (rule comprehension_cong)
  fix j
  show "(case getitem rows j of Inl e \<Rightarrow> Inl e
         | Inr a \<Rightarrow> (case heap_dict h a of Inl e \<Rightarrow> Inl e | Inr row \<Rightarrow> Inr (production row)))
      = (case getitem series j of Inl e \<Rightarrow> Inl e | Inr row \<Rightarrow> Inr (production row))"
    using assms by (simp add: getitem_def Let_def)
qed

lemma length_heap_after: "length (heap_after h out) = Suc (length h + length out)"
  by (simp add: heap_after_def)

lemma heap_after_Nil: "heap_after h [] = h @ [ListObj []]"
  by (simp add: heap_after_def)

lemma append_heap_after:
  "append_heap (heap_after h outs @ [DictObj row]) (length h) (length (heap_after h outs))
     = Inr (heap_after h (outs @ [row]))"
proof -
  let ?as = "map (\<lambda>k. Suc (length h) + k) [0..<length outs]"
  have l: "heap_list (heap_after h outs @ [DictObj row]) (length h) = Inr ?as"
    by (simp add: heap_list_def heap_after_def nth_append)
  have "(heap_after h outs @ [DictObj row])[length h := ListObj (?as @ [length (heap_after h outs)])]
      = heap_after h (outs @ [row])"
    by (simp add: heap_after_def list_update_append)
  with l show ?thesis by (simp add: append_heap_def)
qed

lemma loop_body_heap_refines:
  assumes rows: "heap_list h data = Inr rows"
    and len: "length rows = length series"
    and dicts: "\<forall>k<length rows. heap_dict h (rows ! k) = Inr (series ! k)"
  shows "loop_body_heap ops (heap_after h outs) data (length h) w i =
     (case loop_body ops series w i of
        Inl e \<Rightarrow> Inl e | Inr row \<Rightarrow> Inr (heap_after h (outs @ [row])))"
proof -
  let ?H = "heap_after h outs"
  have H: "?H = h @ ([ListObj (map (\<lambda>k. Suc (length h) + k) [0..<length outs])] @ map DictObj outs)"
    by (simp add: heap_after_def)
  have d: "data < length h" using heap_list_InrD [OF rows] by simp
  have rowsH: "heap_list ?H data = Inr rows"
    using rows d by (simp only: H heap_list_append)
  have dictsH: "\<forall>k<length rows. heap_dict ?H (rows ! k) = Inr (series ! k)"
  proof (intro allI impI)
    fix k assume k: "k < length rows"
    with dicts have r: "heap_dict h (rows ! k) = Inr (series ! k)" by simp
    then have "rows ! k < length h" using heap_dict_InrD by blast
    then show "heap_dict ?H (rows ! k) = Inr (series ! k)"
      using r by (simp only: H heap_dict_append)
  qed
  have wv: "\<And>a b. window_values_heap ?H rows a b = window_values series a b"
    by (rule window_values_heap_refines [OF len dictsH])
  have gi: "(case getitem rows (int i) of Inl e \<Rightarrow> Inl e | Inr ra \<Rightarrow> heap_dict ?H ra)
      = getitem series (int i)"
    using len dictsH by (simp add: getitem_def Let_def)
  show ?thesis
  proof (cases "window_values series (window_start w i) (window_end (length series) w i)")
    case (Inl e)
    then show ?thesis by (simp add: loop_body_heap_def loop_body_def rowsH Let_def wv len)
  next
    case vs: (Inr vs)
    show ?thesis
    proof (cases "average ops vs")
      case (Inl e)
      then show ?thesis using vs by (simp add: loop_body_heap_def loop_body_def rowsH Let_def wv len)
    next
      case a: (Inr a)
      show ?thesis
      proof (cases "getitem series (int i)")
        case (Inl e)
        with gi have "(case getitem rows (int i) of Inl e \<Rightarrow> Inl e | Inr ra \<Rightarrow> heap_dict ?H ra) = Inl e"
          by simp
        then show ?thesis using vs a Inl
          by (auto simp: loop_body_heap_def loop_body_def rowsH Let_def wv len split: sum.splits)
      next
        case (Inr row)
        with gi have "(case getitem rows (int i) of Inl e \<Rightarrow> Inl e | Inr ra \<Rightarrow> heap_dict ?H ra) = Inr row"
          by simp
        then show ?thesis using vs a Inr
          by (auto simp: loop_body_heap_def loop_body_def rowsH Let_def wv len alloc_def
              append_heap_after split: sum.splits)
      qed
    qed
  qed
qed

lemma for_loop_heap_refines:
  assumes rows: "heap_list h data = Inr rows"
    and len: "length rows = length series"
    and dicts: "\<forall>k<length rows. heap_dict h (rows ! k) = Inr (series ! k)"
  shows "for_loop_heap ops (heap_after h outs) data (length h) w (length series) i =
     (case for_loop ops series w i outs of
        Inl e \<Rightarrow> Inl e | Inr out \<Rightarrow> Inr (heap_after h out))"
proof (induction "length series - i" arbitrary: i outs)
  case 0
  then have "\<not> i < length series" by simp
  then show ?case
    by (simp add: for_loop_heap.simps [of _ _ _ _ _ _ i] for_loop.simps [of _ _ _ i])
next
  case (Suc n)
  then have i: "i < length series" by simp
  have body: "loop_body_heap ops (heap_after h outs) data (length h) w i =
     (case loop_body ops series w i of
        Inl e \<Rightarrow> Inl e | Inr row \<Rightarrow> Inr (heap_after h (outs @ [row])))"
    by (rule loop_body_heap_refines [OF rows len dicts])
  show ?case
  proof (cases "loop_body ops series w i")
    case (Inl e)
    with i body show ?thesis
      by (simp add: for_loop_heap.simps [of _ _ _ _ _ _ i] for_loop.simps [of _ _ _ i])
  next
    case (Inr row)
    have "n = length series - Suc i" using Suc.hyps(2) by simp
    then have "for_loop_heap ops (heap_after h (outs @ [row])) data (length h) w (length series) (Suc i) =
        (case for_loop ops series w (Suc i) (outs @ [row]) of
           Inl e \<Rightarrow> Inl e | Inr out \<Rightarrow> Inr (heap_after h out))"
      by (rule Suc.hyps(1))
    with i body Inr show ?thesis
      by (simp add: for_loop_heap.simps [of _ _ _ _ _ _ i] for_loop.simps [of _ _ _ i])
  qed
qed

lemma compute_moving_average_heap_refines:
  assumes "read_series h data = Inr series"
  shows "compute_moving_average_heap ops h data w =
     (case compute_moving_average ops series w of
        Inl e \<Rightarrow> Inl e | Inr out \<Rightarrow> Inr (length h, heap_after h out))"
proof -
  from read_series_InrD [OF assms] obtain rows where rows: "heap_list h data = Inr rows"
    and len: "length rows = length series"
    and dicts: "\<forall>k<length rows. heap_dict h (rows ! k) = Inr (series ! k)"
    by blast
  have d: "data < length h" using heap_list_InrD [OF rows] by simp
  have rows0: "heap_list (h @ [ListObj []]) data = Inr rows"
    using rows d by (simp add: heap_list_append)
  have "for_loop_heap ops (heap_after h []) data (length h) w (length series) 0 =
     (case for_loop ops series w 0 [] of
        Inl e \<Rightarrow> Inl e | Inr out \<Rightarrow> Inr (heap_after h out))"
    by (rule for_loop_heap_refines [OF rows len dicts])
  then show ?thesis
    by (simp add: compute_moving_average_heap_def compute_moving_average_def alloc_def rows0 len
        heap_after_Nil split: sum.splits)
qed

lemma take_heap_after: "take (length h) (heap_after h out) = h"
  by (simp add: heap_after_def)

lemma heap_list_heap_after:
  "heap_list (heap_after h out) (length h) = Inr (map (\<lambda>k. Suc (length h) + k) [0..<length out])"
  by (simp add: heap_list_def heap_after_def nth_append)

lemma heap_dict_heap_after:
  assumes "k < length out"
  shows "heap_dict (heap_after h out) (Suc (length h + k)) = Inr (out ! k)"
  using assms by (simp add: heap_dict_def heap_after_def nth_append)

lemma read_series_heap_after: "read_series (heap_after h out) (length h) = Inr out"
proof -
  let ?as = "map (\<lambda>k. Suc (length h) + k) [0..<length out]"
  have "comprehension (heap_dict (heap_after h out)) ?as
      = Inr (map (\<lambda>a. out ! (a - Suc (length h))) ?as)"
    by (rule comprehension_total) (auto simp: heap_dict_heap_after)
  also have "map (\<lambda>a. out ! (a - Suc (length h))) ?as = map ((!) out) [0..<length out]"
    by simp
  also have "\<dots> = out" by (rule map_nth)
  finally show ?thesis by (simp add: read_series_def heap_list_heap_after)
qed

lemma read_series_heap_after_old:
  "read_series h data = Inr series \<Longrightarrow> read_series (heap_after h out) data = Inr series"
  unfolding heap_after_def by (rule read_series_append)

subsection \<open>One decimal digit, ties to even\<close>

lemma round_half_even1_rounds: "rounds_half_even1 x (round_half_even1 x)"
proof -
  define y where "y = 10 * x"
  define f where "f = \<lfloor>y\<rfloor>"
  define r where "r = y - of_int f"
  define k where "k = (if r < 1 / 2 then f else if 1 / 2 < r then f + 1
                       else if even f then f else f + 1)"
  have d: "round_half_even1 x = of_int k / 10"
    by (simp add: round_half_even1_def Let_def y_def f_def r_def k_def)
  have r: "0 \<le> r" "r < 1"
    unfolding r_def f_def by linarith+
  have yk: "y - of_int k = (if r < 1 / 2 then r else if 1 / 2 < r then r - 1
                            else if even f then r else r - 1)"
    by (simp add: k_def r_def)
  have dist: "\<bar>y - of_int k\<bar> \<le> 1 / 2"
    using r by (simp add: yk)
  have tie: "even k" if "\<bar>y - of_int k\<bar> = 1 / 2"
  proof -
    have "\<not> r < 1 / 2" "\<not> 1 / 2 < r"
      using that r by (auto simp: yk split: if_splits)
    then show ?thesis by (simp add: k_def)
  qed
  have xd: "x - of_int k / 10 = (y - of_int k) / 10"
    by (simp add: y_def)
  have "10 * (rat_of_int k / 10) \<in> \<int>" by simp
  moreover have "\<bar>x - of_int k / 10\<bar> \<le> 1 / 20"
    using dist by (simp add: xd)
  moreover have "even \<lfloor>10 * (rat_of_int k / 10)\<rfloor>" if "\<bar>x - of_int k / 10\<bar> = 1 / 20"
  proof -
    from that have "\<bar>y - of_int k\<bar> = 1 / 2" by (simp add: xd)
    then show ?thesis using tie by simp
  qed
  ultimately show ?thesis
    unfolding rounds_half_even1_def d by blast
qed

lemma rounds_half_even1_unique:
  assumes "rounds_half_even1 x d" and "rounds_half_even1 x d'"
  shows "d = d'"
proof -
  from assms obtain k k' :: int where k: "10 * d = of_int k" and k': "10 * d' = of_int k'"
    by (auto simp: rounds_half_even1_def elim!: Ints_cases)
  have d: "d = of_int k / 10" "d' = of_int k' / 10" using k k' by simp_all
  define y where "y = 10 * x"
  have s: "\<bar>x - of_int j / 10\<bar> = \<bar>y - of_int j\<bar> / 10" for j :: int
  proof -
    have "x - of_int j / 10 = (y - of_int j) / 10" by (simp add: y_def)
    then show ?thesis by (simp only: abs_divide abs_numeral)
  qed
  have a: "\<bar>y - of_int k\<bar> \<le> 1 / 2" "\<bar>y - of_int k'\<bar> \<le> 1 / 2"
    using assms by (simp_all add: rounds_half_even1_def d s)
  have e: "\<bar>y - of_int k\<bar> = 1 / 2 \<longrightarrow> even k" "\<bar>y - of_int k'\<bar> = 1 / 2 \<longrightarrow> even k'"
    using assms by (simp_all add: rounds_half_even1_def d s)
  have "\<bar>rat_of_int k - of_int k'\<bar> \<le> 1" using a by linarith
  then have "\<bar>rat_of_int (k - k')\<bar> \<le> 1" by simp
  then have le: "\<bar>k - k'\<bar> \<le> 1" by (simp only: of_int_abs [symmetric] of_int_le_1_iff)
  have "k = k'"
  proof (rule ccontr)
    assume ne: "k \<noteq> k'"
    with le have c: "k = k' + 1 \<or> k' = k + 1" by linarith
    then have "\<bar>y - of_int k\<bar> = 1 / 2 \<and> \<bar>y - of_int k'\<bar> = 1 / 2"
      using a by (auto simp: abs_if split: if_splits)
    with e have "even k" "even k'" by simp_all
    with c show False by auto
  qed
  then show ?thesis by (simp add: d)
qed

lemma spec_value_without_rounding:
  "spec_value (without_rounding ops) data w i = window_mean ops data w i"
  by (simp add: spec_value_window window_mean_def without_rounding_def Let_def)

lemma spec_value_rounds_mean:
  "spec_value ops data w i = fround1 ops (window_mean ops data w i)"
  by (simp add: spec_value_window window_mean_def Let_def)

lemma window_mean_tie: "window_mean python_ops series_tie 2 0 = 1 / 4"
  by (simp add: window_mean_def window_start_def window_end_def half_window_def slice_def
      series_tie_def python_ops_def)

lemma binary64_quarter: "binary64 (1 / 4)"
  unfolding binary64_def by (rule exI [of _ 1], rule exI [of _ "- 2"]) simp

subsection \<open>\<open>to_binary64\<close> returns a nearest double\<close>

lemma pow2_powi: "pow2 e = 2 powi e"
proof (cases "0 \<le> e")
  case True
  then show ?thesis by (simp add: pow2_def power_int_def)
next
  case False
  have "inverse (2::rat) ^ nat (- e) = 1 / 2 ^ nat (- e)"
    by (simp only: inverse_eq_divide power_one_over)
  with False show ?thesis by (simp only: pow2_def power_int_def if_False)
qed

lemma pow2_pos: "0 < pow2 e"
  by (simp add: pow2_powi)

lemma pow2_add: "pow2 (a + b) = pow2 a * pow2 b"
  by (simp add: pow2_powi power_int_add)

lemma pow2_nat: "0 \<le> e \<Longrightarrow> pow2 e = 2 ^ nat e"
  by (simp add: pow2_def)

lemma pow2_mono: "a \<le> b \<Longrightarrow> pow2 a \<le> pow2 b"
  by (simp add: pow2_powi power_int_increasing)

lemma pow2_strict_mono: "a < b \<Longrightarrow> pow2 a < pow2 b"
  by (simp add: pow2_powi power_int_strict_increasing)

lemma pow2_less_imp_less: "pow2 a < pow2 b \<Longrightarrow> a < b"
  using pow2_mono [of b a] by (cases "a < b") auto

lemma binary64_iff:
  "binary64 q \<longleftrightarrow> (\<exists>m e. \<bar>m\<bar> < 2 ^ 53 \<and> - 1074 \<le> e \<and> e \<le> 971 \<and> q = of_int m * pow2 e)"
  by (simp add: binary64_def pow2_def)

lemma floor_log2_bounds:
  assumes "0 < a"
  shows "pow2 (floor_log2 a) \<le> a" and "a < pow2 (floor_log2 a + 1)"
proof -
  have "pow2 (floor_log2 a) \<le> a \<and> a < pow2 (floor_log2 a + 1)"
  proof (cases "1 \<le> a")
    case True
    define n where "n = \<lfloor>a\<rfloor>"
    define b where "b = bitlen n"
    have n: "0 < n" using True by (simp add: n_def)
    from bitlen_bounds [OF n] have bb: "2 ^ nat (b - 1) \<le> n" "n < 2 ^ nat b"
      by (simp_all add: b_def)
    have "b \<noteq> 0" using n bitlen_eq_zero_iff [of n] by (simp add: b_def)
    moreover have "0 \<le> b" using bitlen_nonneg [of n] by (simp add: b_def)
    ultimately have b1: "1 \<le> b" by arith
    have fl: "floor_log2 a = b - 1" using True by (simp add: floor_log2_def n_def b_def)
    have "rat_of_int (2 ^ nat (b - 1)) \<le> of_int n" using bb(1) by (simp only: of_int_le_iff)
    also have "\<dots> \<le> a" by (simp add: n_def)
    finally have lo: "pow2 (b - 1) \<le> a" using b1 by (simp add: pow2_nat)
    have "n + 1 \<le> 2 ^ nat b" using bb(2) by simp
    then have "rat_of_int (n + 1) \<le> of_int (2 ^ nat b)" by (simp only: of_int_le_iff)
    moreover have "a < of_int (n + 1)" unfolding n_def by linarith
    ultimately have hi: "a < pow2 b" using b1 by (simp add: pow2_nat)
    from lo hi show ?thesis by (simp add: fl)
  next
    case False
    define y where "y = 1 / a"
    define n where "n = \<lceil>y\<rceil> - 1"
    define b where "b = bitlen n"
    have y: "1 < y" using False assms by (simp add: y_def)
    then have "2 \<le> \<lceil>y\<rceil>" by linarith
    then have n: "0 < n" by (simp add: n_def)
    from bitlen_bounds [OF n] have bb: "2 ^ nat (b - 1) \<le> n" "n < 2 ^ nat b"
      by (simp_all add: b_def)
    have "b \<noteq> 0" using n bitlen_eq_zero_iff [of n] by (simp add: b_def)
    moreover have "0 \<le> b" using bitlen_nonneg [of n] by (simp add: b_def)
    ultimately have b1: "1 \<le> b" by arith
    have fl: "floor_log2 a = - b" using False by (simp add: floor_log2_def n_def b_def y_def)
    have a: "a = 1 / y" using assms by (simp add: y_def)
    have "n + 1 \<le> 2 ^ nat b" using bb(2) by simp
    then have "rat_of_int (n + 1) \<le> of_int (2 ^ nat b)" by (simp only: of_int_le_iff)
    moreover have "y \<le> of_int (n + 1)" unfolding n_def by simp
    ultimately have "y \<le> 2 ^ nat b" by simp
    then have "1 / 2 ^ nat b \<le> 1 / y" using y by (simp add: frac_le)
    then have lo: "pow2 (- b) \<le> a" using b1 by (simp add: pow2_def a)
    have "(2::rat) ^ nat (b - 1) = rat_of_int (2 ^ nat (b - 1))" by simp
    also have "\<dots> \<le> of_int n" using bb(1) by (simp only: of_int_le_iff)
    also have "\<dots> < y" unfolding n_def by linarith
    finally have "2 ^ nat (b - 1) < y" .
    then have "1 / y < 1 / 2 ^ nat (b - 1)" by (simp add: frac_less2)
    moreover have "pow2 (- b + 1) = 1 / 2 ^ nat (b - 1)"
      using b1 by (cases "b = 1") (simp_all add: pow2_def)
    ultimately have hi: "a < pow2 (- b + 1)" by (simp add: a)
    from lo hi show ?thesis by (simp add: fl)
  qed
  then show "pow2 (floor_log2 a) \<le> a" and "a < pow2 (floor_log2 a + 1)" by simp_all
qed

lemma round_half_even_close: "\<bar>y - of_int (round_half_even y)\<bar> \<le> 1 / 2"
proof -
  define f where "f = \<lfloor>y\<rfloor>"
  define r where "r = y - of_int f"
  have r: "0 \<le> r" "r < 1" unfolding r_def f_def by linarith+
  have k: "round_half_even y = (if r < 1 / 2 then f else if 1 / 2 < r then f + 1
                                else if even f then f else f + 1)"
    by (simp add: round_half_even_def Let_def f_def r_def)
  have "y - of_int (round_half_even y) = (if r < 1 / 2 then r else if 1 / 2 < r then r - 1
                                          else if even f then r else r - 1)"
    by (simp add: k r_def)
  then show ?thesis using r by (simp add: abs_if)
qed

lemma round_half_even_nearest:
  "\<bar>y - of_int (round_half_even y)\<bar> \<le> \<bar>y - of_int N\<bar>"
proof (cases "N = round_half_even y")
  case True
  then show ?thesis by simp
next
  case False
  then have "1 \<le> \<bar>N - round_half_even y\<bar>" by linarith
  then have "1 \<le> \<bar>rat_of_int N - of_int (round_half_even y)\<bar>"
    by (metis of_int_1 of_int_abs of_int_diff of_int_le_iff)
  with round_half_even_close [of y] show ?thesis by linarith
qed

lemma to_binary64_nonzero:
  "x \<noteq> 0 \<Longrightarrow> to_binary64 x =
     of_int (round_half_even (x / pow2 (max (floor_log2 \<bar>x\<bar> - 52) (- 1074)))) *
       pow2 (max (floor_log2 \<bar>x\<bar> - 52) (- 1074))"
  by (simp add: to_binary64_def Let_def)

lemma multiple_nearest:
  assumes "0 < u"
  shows "\<bar>of_int (round_half_even (x / u)) * u - x\<bar> \<le> \<bar>of_int N * u - x\<bar>"
proof -
  have eq: "\<bar>of_int j * u - x\<bar> = u * \<bar>x / u - of_int j\<bar>" for j :: int
  proof -
    have "of_int j * u - x = - (u * (x / u - of_int j))" using assms by (simp add: field_simps)
    then have "\<bar>of_int j * u - x\<bar> = \<bar>u * (x / u - of_int j)\<bar>" by (simp only: abs_minus_cancel)
    also have "\<dots> = u * \<bar>x / u - of_int j\<bar>" using assms by (simp add: abs_mult)
    finally show ?thesis .
  qed
  have "u * \<bar>x / u - of_int (round_half_even (x / u))\<bar> \<le> u * \<bar>x / u - of_int N\<bar>"
    using round_half_even_nearest [of "x / u" N] assms by (simp add: mult_left_mono)
  then show ?thesis by (simp only: eq)
qed

lemma max_binary64_less: "max_binary64 < pow2 1024"
proof -
  have "pow2 1024 = pow2 53 * pow2 971" by (simp add: pow2_add [symmetric])
  also have "\<dots> = 2 ^ 53 * 2 ^ 971" by (simp add: pow2_def)
  finally have "pow2 1024 = 2 ^ 53 * 2 ^ 971" .
  moreover have "((2::rat) ^ 53 - 1) * 2 ^ 971 < 2 ^ 53 * 2 ^ 971"
    by (rule mult_strict_right_mono) simp_all
  ultimately show ?thesis by (simp only: max_binary64_def)
qed

lemma int_abs_le_of_rat:
  fixes m M :: int and q :: rat
  assumes "\<bar>q - of_int m\<bar> \<le> 1 / 2" and "\<bar>q\<bar> < of_int M"
  shows "\<bar>m\<bar> \<le> M"
proof -
  have "\<bar>rat_of_int m\<bar> < of_int M + 1" using assms by linarith
  then have "rat_of_int \<bar>m\<bar> < of_int (M + 1)" by simp
  then have "\<bar>m\<bar> < M + 1" by (simp only: of_int_less_iff)
  then show ?thesis by simp
qed

lemma int_abs_le_of_rat':
  fixes m M :: int and q :: rat
  assumes "\<bar>q - of_int m\<bar> \<le> 1 / 2" and "\<bar>q\<bar> \<le> of_int M"
  shows "\<bar>m\<bar> \<le> M"
proof -
  have "\<bar>rat_of_int m\<bar> < of_int M + 1" using assms by linarith
  then have "rat_of_int \<bar>m\<bar> < of_int (M + 1)" by simp
  then have "\<bar>m\<bar> < M + 1" by (simp only: of_int_less_iff)
  then show ?thesis by simp
qed

lemma to_binary64_nearest:
  assumes "\<bar>x\<bar> \<le> max_binary64"
  shows "nearest_binary64 x (to_binary64 x)"
proof (cases "x = 0")
  case True
  have "binary64 0" using binary64_of_int [of 0] by simp
  then show ?thesis using True by (simp add: nearest_binary64_def to_binary64_def)
next
  case False
  define a where "a = \<bar>x\<bar>"
  define k where "k = floor_log2 a"
  define e where "e = max (k - 52) (- 1074)"
  define u where "u = pow2 e"
  define m where "m = round_half_even (x / u)"
  define M :: int where "M = 2 ^ 53"
  have a: "0 < a" using False by (simp add: a_def)
  have u: "0 < u" by (simp add: u_def pow2_pos)
  have v: "to_binary64 x = of_int m * u"
    using False by (simp add: to_binary64_nonzero m_def u_def e_def k_def a_def)
  have klo: "pow2 k \<le> a" and khi: "a < pow2 (k + 1)"
    using floor_log2_bounds [OF a] by (simp_all add: k_def)
  have "pow2 k < pow2 1024"
    using klo assms max_binary64_less by (simp add: a_def)
  then have k1023: "k \<le> 1023" using pow2_less_imp_less [of k 1024] by simp
  have e_lo: "- 1074 \<le> e" and e_k: "k - 52 \<le> e" and e_hi: "e \<le> 971"
    using k1023 by (simp_all add: e_def)
  have M: "rat_of_int M = pow2 53" by (simp add: M_def pow2_def)
  have "pow2 (k + 1) \<le> pow2 (e + 53)" using e_k by (intro pow2_mono) simp
  also have "\<dots> = u * of_int M" by (simp add: pow2_add u_def M)
  finally have "a < u * of_int M" using khi by simp
  then have "a / u < of_int M" using u by (simp add: field_simps)
  moreover have au: "\<bar>x / u\<bar> = a / u" using u by (simp add: a_def)
  ultimately have q: "\<bar>x / u\<bar> < of_int M" by simp
  have close: "\<bar>x / u - of_int m\<bar> \<le> 1 / 2"
    unfolding m_def by (rule round_half_even_close)
  have mM: "\<bar>m\<bar> \<le> M" by (rule int_abs_le_of_rat [OF close q])
  have b: "binary64 (of_int m * u)"
  proof (cases "\<bar>m\<bar> < M")
    case True
    then show ?thesis
      unfolding binary64_iff u_def using e_lo e_hi by (auto simp: M_def)
  next
    case False
    with mM have mm: "\<bar>m\<bar> = M" by simp
    have "e \<noteq> 971"
    proof
      assume e971: "e = 971"
      have "a \<le> (of_int M - 1) * u"
        using assms by (simp add: a_def max_binary64_def u_def e971 pow2_def M_def)
      then have "a / u \<le> of_int (M - 1)" using u by (simp add: field_simps)
      then have "\<bar>x / u\<bar> \<le> of_int (M - 1)" by (simp only: au)
      from int_abs_le_of_rat' [OF close this] mm show False by simp
    qed
    with e_hi have e970: "e + 1 \<le> 971" by simp
    have "even M" by (simp add: M_def)
    then have "even m" using mm by (metis dvd_abs_iff)
    then have even: "m = 2 * (m div 2)" by simp
    then have "\<bar>m\<bar> = 2 * \<bar>m div 2\<bar>" by (metis abs_mult abs_numeral)
    then have half: "\<bar>m div 2\<bar> < 2 ^ 53" using mm by (simp add: M_def)
    have "rat_of_int m * u = of_int (2 * (m div 2)) * u" using even by simp
    also have "\<dots> = of_int (m div 2) * (pow2 e * pow2 1)" by (simp add: u_def pow2_def)
    also have "\<dots> = of_int (m div 2) * pow2 (e + 1)" by (simp only: pow2_add)
    finally have "rat_of_int m * u = of_int (m div 2) * pow2 (e + 1)" .
    then show ?thesis
      unfolding binary64_iff using half e_lo e970
      by (intro exI [of _ "m div 2"] exI [of _ "e + 1"]) simp
  qed
  have near: "\<bar>of_int m * u - x\<bar> \<le> \<bar>z - x\<bar>" if "binary64 z" for z
  proof -
    from that obtain n ez where n: "\<bar>n\<bar> < 2 ^ 53" and ez: "- 1074 \<le> ez" "ez \<le> 971"
      and z: "z = of_int n * pow2 ez"
      unfolding binary64_iff by blast
    show ?thesis
    proof (cases "e \<le> ez")
      case True
      have "pow2 ez = pow2 (ez - e) * pow2 e" by (simp add: pow2_add [symmetric])
      also have "pow2 (ez - e) = of_int (2 ^ nat (ez - e))" using True by (simp add: pow2_nat)
      finally have "z = of_int (n * 2 ^ nat (ez - e)) * u" by (simp add: z u_def)
      then show ?thesis
        unfolding m_def using multiple_nearest [OF u, of x "n * 2 ^ nat (ez - e)"] by simp
    next
      case False
      then have ek: "e = k - 52" using ez(1) by (simp add: e_def)
      have "\<bar>z\<bar> = of_int \<bar>n\<bar> * pow2 ez" using pow2_pos [of ez] by (simp add: z abs_mult)
      also have "\<dots> < of_int (2 ^ 53) * pow2 ez"
        using n pow2_pos [of ez] by (intro mult_strict_right_mono) (simp_all only: of_int_less_iff)
      also have "\<dots> = pow2 53 * pow2 ez" by (simp add: pow2_nat)
      also have "\<dots> = pow2 (ez + 53)" by (simp only: pow2_add [symmetric] add.commute)
      also have "\<dots> \<le> pow2 k" using False ek by (intro pow2_mono) simp
      finally have zk: "\<bar>z\<bar> < pow2 k" .
      define s :: int where "s = (if 0 < x then 2 ^ 52 else - (2 ^ 52))"
      have "pow2 k = pow2 52 * pow2 e" by (simp add: ek pow2_add [symmetric])
      then have pk: "pow2 k = 2 ^ 52 * u" by (simp add: u_def pow2_def)
      have w: "\<bar>of_int s * u - x\<bar> = a - pow2 k"
        using klo \<open>x \<noteq> 0\<close> by (auto simp: s_def pk a_def abs_if)
      have "\<bar>of_int m * u - x\<bar> \<le> \<bar>of_int s * u - x\<bar>"
        unfolding m_def by (rule multiple_nearest [OF u])
      also have "\<dots> = a - pow2 k" by (rule w)
      also have "\<dots> < a - \<bar>z\<bar>" using zk by simp
      also have "\<dots> \<le> \<bar>z - x\<bar>" unfolding a_def by linarith
      finally show ?thesis by simp
    qed
  qed
  show ?thesis
    unfolding nearest_binary64_def v using b near by blast
qed

lemma round_half_even1_bounded:
  assumes "binary64 x"
  shows "\<bar>round_half_even1 x\<bar> \<le> max_binary64"
proof -
  from assms obtain n e where n: "\<bar>n\<bar> < 2 ^ 53" and e: "- 1074 \<le> e" "e \<le> 971"
    and x: "x = of_int n * pow2 e"
    unfolding binary64_iff by blast
  have n': "rat_of_int \<bar>n\<bar> \<le> 2 ^ 53 - 1"
  proof -
    have "\<bar>n\<bar> \<le> 2 ^ 53 - 1" using n by simp
    then have "rat_of_int \<bar>n\<bar> \<le> of_int (2 ^ 53 - 1)" by (simp only: of_int_le_iff)
    then show ?thesis by simp
  qed
  have ax: "\<bar>x\<bar> = of_int \<bar>n\<bar> * pow2 e" using pow2_pos [of e] by (simp add: x abs_mult)
  show ?thesis
  proof (cases "0 \<le> e")
    case True
    have "x = of_int (n * 2 ^ nat e)" using True by (simp add: x pow2_nat)
    then have "10 * x \<in> \<int>" by (metis Ints_of_int of_int_mult of_int_numeral)
    then have r: "round_half_even1 x = x" by (rule round_half_even1_fixed)
    have "pow2 e \<le> pow2 971" using e(2) by (rule pow2_mono)
    then have "of_int \<bar>n\<bar> * pow2 e \<le> (2 ^ 53 - 1) * pow2 971"
      using n' pow2_pos [of e] by (intro mult_mono) simp_all
    then show ?thesis by (simp add: r ax max_binary64_def pow2_nat)
  next
    case False
    then have "pow2 e \<le> pow2 0" by (intro pow2_mono) simp
    then have p: "pow2 e \<le> 1" by (simp add: pow2_def)
    have "of_int \<bar>n\<bar> * pow2 e \<le> (2 ^ 53 - 1) * 1"
      using n' p pow2_pos [of e] by (intro mult_mono) simp_all
    then have small: "\<bar>x\<bar> \<le> 2 ^ 53 - 1" by (simp add: ax)
    have "\<bar>x - round_half_even1 x\<bar> \<le> 1 / 20"
      using round_half_even1_rounds [of x] by (simp add: rounds_half_even1_def)
    with small have "\<bar>round_half_even1 x\<bar> \<le> 2 ^ 53" by linarith
    also have "(2::rat) ^ 53 \<le> (2 ^ 53 - 1) * 2 ^ 971" by simp
    finally show ?thesis by (simp only: max_binary64_def)
  qed
qed

lemma py_round1_nearest:
  assumes "binary64 x"
  shows "nearest_binary64 (round_half_even1 x) (py_round1 x)"
  unfolding py_round1_def
  by (rule to_binary64_nearest [OF round_half_even1_bounded [OF assms]])

lemma python_round_python_ops: "python_round python_ops"
  unfolding python_round_def
proof (intro allI impI)
  fix x assume "binary64 x"
  then have "nearest_binary64 (round_half_even1 x) (fround1 python_ops x)"
    by (simp add: python_ops_def py_round1_nearest)
  with round_half_even1_rounds [of x]
  show "\<exists>d. rounds_half_even1 x d \<and> nearest_binary64 d (fround1 python_ops x)" by blast
qed

lemma py_round1_quarter: "py_round1 (1 / 4) = 3602879701896397 / 18014398509481984"
  by code_simp

lemma round_half_even1_quarter: "round_half_even1 (1 / 4) = 1 / 5"
  by code_simp

section \<open>The claims\<close>

text \<open>
  C1. For every series and every window size \<open>w \<ge> 1\<close> the function returns, and the
  value at each index \<open>i\<close> is the one the six steps of the contract give:
  \<open>half = w div 2\<close>, \<open>start = max 0 (i - half)\<close>, \<open>end = min (len series) (start + w)\<close>,
  the mean of the values at \<open>start \<le> j < end\<close>, rounded to one decimal place.
\<close>

theorem compute_moving_average_follows_spec:
  assumes "1 \<le> w"
  shows "\<exists>out. compute_moving_average ops data w = Inr out \<and> length out = length data \<and>
           (\<forall>i<length data. production (out ! i) = spec_value ops data w i)"
  using assms by (simp add: compute_moving_average_rows)

theorem compute_moving_average_follows_spec_witness:
  "(1::int) \<le> 4 \<and>
   (\<exists>out. compute_moving_average exact_ops series6 4 = Inr out \<and> length out = 6 \<and>
      production (out ! 3) = spec_value exact_ops series6 4 3)"
proof -
  have h: "(1::int) \<le> 4" by simp
  have n: "length series6 = 6" by (simp add: series6_def)
  from compute_moving_average_follows_spec [OF h, of exact_ops series6]
  show ?thesis by (auto simp: n)
qed

text \<open>
  C2, as amended. For a non-empty series and a window size \<open>w \<ge> len series\<close>, the
  output value at every index \<open>i \<le> w div 2\<close> is the rounded average of all input values;
  hence every output value is, when \<open>w div 2 \<ge> len series - 1\<close>.
\<close>

theorem saturation_up_to_half_window:
  assumes "int (length data) \<le> w" and "i < length data" and "int i \<le> w div 2"
  shows "\<exists>out. compute_moving_average ops data w = Inr out \<and>
           production (out ! i) = global_average ops data"
proof -
  have "1 \<le> w" using assms(1,2) by linarith
  then show ?thesis
    using assms by (simp add: compute_moving_average_rows spec_value_saturated)
qed

theorem saturation_up_to_half_window_witness:
  "int (length series6) \<le> 6 \<and> 3 < length series6 \<and> int 3 \<le> 6 div 2 \<and>
   (\<exists>out. compute_moving_average exact_ops series6 6 = Inr out \<and>
      production (out ! 3) = global_average exact_ops series6)"
proof -
  have h: "int (length series6) \<le> 6" "3 < length series6" "int 3 \<le> 6 div 2"
    by (simp_all add: series6_def)
  from saturation_up_to_half_window [OF h, of exact_ops] h
  show ?thesis by simp
qed

text \<open>
  C2, as stated, fails. The series with values 1 to 6 and \<open>w = 6 = len series\<close>: at index
  4 the window is \<open>[1, 6)\<close> and at index 5 it is \<open>[2, 6)\<close>, since \<open>start = i - 3\<close> is
  positive there; the outputs are 4.0 and 4.5, the average of all values is 3.5. All
  sums and quotients involved are doubles, so float arithmetic gives these very values.
\<close>

theorem saturation_counterexample:
  "int (length series6) \<le> 6 \<and>
   compute_moving_average exact_ops series6 6 =
     Inr [\<lparr>date = ''d0'', production = 7 / 2\<rparr>, \<lparr>date = ''d1'', production = 7 / 2\<rparr>,
          \<lparr>date = ''d2'', production = 7 / 2\<rparr>, \<lparr>date = ''d3'', production = 7 / 2\<rparr>,
          \<lparr>date = ''d4'', production = 4\<rparr>, \<lparr>date = ''d5'', production = 9 / 2\<rparr>] \<and>
   global_average exact_ops series6 = 7 / 2 \<and> (9 / 2 :: rat) \<noteq> 7 / 2"
  by code_simp

text \<open>
  C3. For every series and every window size \<open>w \<ge> 1\<close> the output has the length of the
  input and carries the same labels in the same order; each output row is the input
  label with a recomputed value.
\<close>

theorem compute_moving_average_preserves_labels:
  assumes "1 \<le> w"
  shows "\<exists>out. compute_moving_average ops data w = Inr out \<and> length out = length data \<and>
           map date out = map date data"
proof -
  have "map (\<lambda>i. date (data ! i)) [0..<length data] = map date (map ((!) data) [0..<length data])"
    by simp
  also have "\<dots> = map date data" by (simp only: map_nth)
  finally show ?thesis
    using assms by (simp add: compute_moving_average_rows comp_def)
qed

theorem compute_moving_average_preserves_labels_witness:
  "(1::int) \<le> 4 \<and>
   (\<exists>out. compute_moving_average exact_ops series6 4 = Inr out \<and> length out = length series6 \<and>
      map date out = map date series6)"
proof -
  have h: "(1::int) \<le> 4" by simp
  from compute_moving_average_preserves_labels [OF h, of exact_ops series6] h
  show ?thesis by simp
qed

text \<open>
  C4. With window size 1 each output value is the input value at the same index,
  rounded to one decimal place. The arithmetic facts used are that \<open>0 + v\<close> and
  \<open>v / 1\<close> are \<open>v\<close> for a finite double \<open>v\<close>.
\<close>

theorem window_one_identity:
  assumes "ieee_exact ops" and "\<forall>row \<in> set data. binary64 (production row)"
    and "i < length data"
  shows "\<exists>out. compute_moving_average ops data 1 = Inr out \<and> length out = length data \<and>
           production (out ! i) = fround1 ops (production (data ! i))"
proof -
  let ?v = "production (data ! i)"
  have v: "binary64 ?v" using assms(2,3) by simp
  have s: "fsum ops [?v] = ?v"
    using ieee_exact_fsum [OF assms(1), of "[?v]"] v by (simp add: binary64_small)
  have d: "fdiv ops ?v 1 = ?v"
    using ieee_exact_fdiv [OF assms(1), of 1 ?v] v by simp
  show ?thesis
    using assms(3) by (simp add: compute_moving_average_rows spec_value_window_one s d)
qed

theorem window_one_identity_witness:
  "ieee_exact exact_ops \<and> 2 < length series6 \<and>
   (\<exists>out. compute_moving_average exact_ops series6 1 = Inr out \<and> length out = length series6 \<and>
      production (out ! 2) = fround1 exact_ops (production (series6 ! 2)))"
proof -
  have h: "2 < length series6" by (simp add: series6_def)
  from window_one_identity [OF ieee_exact_exact_ops series6_binary64 h] ieee_exact_exact_ops h
  show ?thesis by simp
qed

text \<open>
  C5. For a window size \<open>w \<ge> 1\<close> and every index \<open>i\<close> of the series, \<open>start < end\<close>: the
  list of window values is not empty, the average does not raise, and the call does not
  end in \<open>ZeroDivisionError\<close>.
\<close>

theorem window_never_empty:
  assumes "1 \<le> w" and "i < length data"
  shows "window_start w i < window_end (length data) w i \<and>
         (\<exists>vs a. window_values data (window_start w i) (window_end (length data) w i) = Inr vs \<and>
            vs \<noteq> [] \<and> average ops vs = Inr a) \<and>
         compute_moving_average ops data w \<noteq> Inl ZeroDivisionError"
proof -
  let ?a = "window_start w i" and ?b = "window_end (length data) w i"
  have lt: "?a < ?b" by (rule window_start_less_end [OF assms])
  have vs: "window_values data ?a ?b = Inr (map production (slice data ?a ?b))"
    by (rule window_values_slice [OF window_start_nonneg window_end_le_length])
  have "length (slice data ?a ?b) \<noteq> 0"
    using lt by (simp add: length_slice window_start_nonneg window_end_le_length)
  then have ne: "map production (slice data ?a ?b) \<noteq> []" by simp
  then have "\<exists>a. average ops (map production (slice data ?a ?b)) = Inr a"
    by (simp add: average_def)
  with lt vs ne show ?thesis
    using assms(1) by (simp add: compute_moving_average_rows)
qed

theorem window_never_empty_witness:
  "(1::int) \<le> 4 \<and> 5 < length series6 \<and>
   window_start 4 5 < window_end (length series6) 4 5 \<and>
   compute_moving_average exact_ops series6 4 \<noteq> Inl ZeroDivisionError"
proof -
  have h: "(1::int) \<le> 4" "5 < length series6" by (simp_all add: series6_def)
  from window_never_empty [OF h, of exact_ops] h
  show ?thesis by simp
qed

text \<open>
  C6. The regression example: on the values 1 to 6 with \<open>w = 4\<close> the output values at
  indices 0, 1 and 2 are 2.5 and the value at index 5 is 5.0, under every float
  arithmetic that is exact where the exact result is a double.
\<close>

theorem left_edge_example:
  assumes "ieee_exact ops"
  shows "\<exists>out. compute_moving_average ops series6 4 = Inr out \<and>
           production (out ! 0) = 5 / 2 \<and> production (out ! 1) = 5 / 2 \<and>
           production (out ! 2) = 5 / 2 \<and> production (out ! 5) = 5"
proof -
  have v: "spec_value ops series6 4 0 = 5 / 2" "spec_value ops series6 4 (Suc 0) = 5 / 2"
    "spec_value ops series6 4 (Suc (Suc 0)) = 5 / 2" "spec_value ops series6 4 5 = 5"
    by (simp_all add: spec_value_def slice_def series6_def mean_1234 [OF assms]
        mean_456 [OF assms])
  have n: "length series6 = 6" by (simp add: series6_def)
  show ?thesis
    by (simp add: compute_moving_average_rows n v)
qed

theorem left_edge_example_witness:
  "ieee_exact exact_ops \<and>
   (\<exists>out. compute_moving_average exact_ops series6 4 = Inr out \<and>
      production (out ! 0) = 5 / 2 \<and> production (out ! 1) = 5 / 2 \<and>
      production (out ! 2) = 5 / 2 \<and> production (out ! 5) = 5)"
  using left_edge_example [OF ieee_exact_exact_ops] ieee_exact_exact_ops by simp

text \<open>
  C7. On the empty series the loop body never runs: the result is the empty series,
  for every window size, and nothing is divided.
\<close>

theorem compute_moving_average_empty:
  "compute_moving_average ops [] window_size = Inr []"
  by (simp add: compute_moving_average_def for_loop.simps)

text \<open>
  C8. For every series and window size \<open>w \<ge> 1\<close> the call returns one value per input
  row, and each is \<open>round\<close> applied once to the finished average: the run with \<open>round\<close>
  taken out returns the unrounded averages, each the quotient of the sum of input
  values of the window by their number, and the output is these with \<open>round\<close> applied to
  each; nothing rounded enters a sum. Under Python's rule for \<open>round(_, 1)\<close> each output
  value is the double nearest to the average rounded to one decimal digit, ties to the
  even digit.
\<close>

theorem rounding_applied_once_at_the_end:
  assumes "1 \<le> w"
  shows "\<exists>raw out.
     compute_moving_average (without_rounding ops) data w = Inr raw \<and> length raw = length data \<and>
     compute_moving_average ops data w = Inr out \<and> length out = length data \<and>
     out = map (round_row ops) raw \<and>
     (\<forall>i<length data.
        production (raw ! i) = window_mean ops data w i \<and>
        production (out ! i) = fround1 ops (window_mean ops data w i) \<and>
        (python_round ops \<and> binary64 (window_mean ops data w i) \<longrightarrow>
           (\<exists>d. rounds_half_even1 (window_mean ops data w i) d \<and>
                nearest_binary64 d (production (out ! i)))))"
proof -
  let ?raw = "map (\<lambda>i. \<lparr>date = date (data ! i), production = window_mean ops data w i\<rparr>)
                  [0..<length data]"
  let ?out = "map (\<lambda>i. \<lparr>date = date (data ! i),
                          production = fround1 ops (window_mean ops data w i)\<rparr>)
                  [0..<length data]"
  have raw: "compute_moving_average (without_rounding ops) data w = Inr ?raw"
    by (simp add: compute_moving_average_rows [OF assms] spec_value_without_rounding)
  have out: "compute_moving_average ops data w = Inr ?out"
    by (simp add: compute_moving_average_rows [OF assms] spec_value_rounds_mean)
  have m: "?out = map (round_row ops) ?raw"
    by (simp add: round_row_def)
  have rule: "\<exists>d. rounds_half_even1 (window_mean ops data w i) d \<and>
                nearest_binary64 d (fround1 ops (window_mean ops data w i))"
    if "python_round ops" and "binary64 (window_mean ops data w i)" for i
    using that by (simp add: python_round_def)
  have pointwise: "\<forall>i<length data.
        production (?raw ! i) = window_mean ops data w i \<and>
        production (?out ! i) = fround1 ops (window_mean ops data w i) \<and>
        (python_round ops \<and> binary64 (window_mean ops data w i) \<longrightarrow>
           (\<exists>d. rounds_half_even1 (window_mean ops data w i) d \<and>
                nearest_binary64 d (production (?out ! i))))"
    using rule by simp
  show ?thesis
  proof (rule exI [of _ ?raw], rule exI [of _ ?out], intro conjI)
    show "compute_moving_average (without_rounding ops) data w = Inr ?raw" by (rule raw)
    show "length ?raw = length data" by simp
    show "compute_moving_average ops data w = Inr ?out" by (rule out)
    show "length ?out = length data" by simp
    show "?out = map (round_row ops) ?raw" by (rule m)
    show "\<forall>i<length data.
        production (?raw ! i) = window_mean ops data w i \<and>
        production (?out ! i) = fround1 ops (window_mean ops data w i) \<and>
        (python_round ops \<and> binary64 (window_mean ops data w i) \<longrightarrow>
           (\<exists>d. rounds_half_even1 (window_mean ops data w i) d \<and>
                nearest_binary64 d (production (?out ! i))))" by (rule pointwise)
  qed
qed

theorem rounding_applied_once_at_the_end_witness:
  "(1::int) \<le> 2 \<and> python_round python_ops \<and>
   binary64 (window_mean python_ops series_tie 2 0) \<and>
   (\<exists>raw out.
      compute_moving_average (without_rounding python_ops) series_tie 2 = Inr raw \<and>
      compute_moving_average python_ops series_tie 2 = Inr out \<and>
      production (raw ! 0) = 1 / 4 \<and>
      production (out ! 0) = 3602879701896397 / 18014398509481984 \<and>
      rounds_half_even1 (1 / 4) (1 / 5) \<and>
      nearest_binary64 (1 / 5) (production (out ! 0)))"
proof -
  have h: "(1::int) \<le> 2" by simp
  have n: "0 < length series_tie" by (simp add: series_tie_def)
  have b: "binary64 (window_mean python_ops series_tie 2 0)"
    by (simp add: window_mean_tie binary64_quarter)
  have r: "rounds_half_even1 (1 / 4) (1 / 5)"
    using round_half_even1_rounds [of "1 / 4"] by (simp only: round_half_even1_quarter)
  from rounding_applied_once_at_the_end [OF h, of python_ops series_tie]
  obtain raw out where
    raw: "compute_moving_average (without_rounding python_ops) series_tie 2 = Inr raw"
    and out: "compute_moving_average python_ops series_tie 2 = Inr out"
    and p: "\<forall>i<length series_tie.
        production (raw ! i) = window_mean python_ops series_tie 2 i \<and>
        production (out ! i) = fround1 python_ops (window_mean python_ops series_tie 2 i) \<and>
        (python_round python_ops \<and> binary64 (window_mean python_ops series_tie 2 i) \<longrightarrow>
           (\<exists>d. rounds_half_even1 (window_mean python_ops series_tie 2 i) d \<and>
                nearest_binary64 d (production (out ! i))))"
    by blast
  from p n have raw0: "production (raw ! 0) = 1 / 4"
    and out0: "production (out ! 0) = fround1 python_ops (1 / 4)"
    by (simp_all add: window_mean_tie)
  from p n b python_round_python_ops obtain d where
    d: "rounds_half_even1 (1 / 4) d" "nearest_binary64 d (production (out ! 0))"
    by (auto simp: window_mean_tie)
  have "d = 1 / 5" by (rule rounds_half_even1_unique [OF d(1) r])
  with d(2) have near: "nearest_binary64 (1 / 5) (production (out ! 0))" by simp
  have val: "production (out ! 0) = 3602879701896397 / 18014398509481984"
    by (simp add: out0 python_ops_def py_round1_quarter)
  from raw out raw0 val r near h b python_round_python_ops show ?thesis by blast
qed

text \<open>
  C9. The call does not change its input. When \<open>data\<close> denotes a series in the store
  \<open>h\<close> and \<open>w \<ge> 1\<close>, the call returns; every object of \<open>h\<close> is the same afterwards, so
  \<open>data\<close> still denotes the same series (length, labels and values); the output list
  and each of its rows are objects created by the call, different from \<open>data\<close>, from
  every row of \<open>data\<close> and from each other; and the output denotes what the list-level
  function computes.
\<close>

theorem compute_moving_average_leaves_input:
  assumes "read_series h data = Inr series" and "1 \<le> w"
  shows "\<exists>result h' out rows.
           compute_moving_average_heap ops h data w = Inr (result, h') \<and>
           take (length h) h' = h \<and>
           read_series h' data = Inr series \<and>
           heap_list h data = Inr rows \<and>
           heap_list h' result = Inr out \<and>
           distinct (result # out) \<and>
           set (result # out) \<inter> set (data # rows) = {} \<and>
           (\<forall>a \<in> set (result # out). length h \<le> a) \<and>
           read_series h' result = compute_moving_average ops series w"
proof -
  let ?rows = "map (\<lambda>i. \<lparr>date = date (series ! i), production = spec_value ops series w i\<rparr>)
                   [0..<length series]"
  let ?h' = "heap_after h ?rows"
  let ?out = "map (\<lambda>k. Suc (length h) + k) [0..<length ?rows]"
  have pure: "compute_moving_average ops series w = Inr ?rows"
    by (rule compute_moving_average_rows [OF assms(2)])
  have call: "compute_moving_average_heap ops h data w = Inr (length h, ?h')"
    by (simp add: compute_moving_average_heap_refines [OF assms(1)] pure)
  from read_series_InrD [OF assms(1)] obtain rows where rows: "heap_list h data = Inr rows"
    and dicts: "\<forall>k<length rows. heap_dict h (rows ! k) = Inr (series ! k)"
    by blast
  have old: "\<forall>a \<in> set (data # rows). a < length h"
  proof
    fix a assume "a \<in> set (data # rows)"
    then consider "a = data" | k where "k < length rows" "a = rows ! k"
      by (auto simp: in_set_conv_nth)
    then show "a < length h"
    proof cases
      case 1
      then show ?thesis using heap_list_InrD [OF rows] by simp
    next
      case 2
      with dicts have "heap_dict h a = Inr (series ! k)" by simp
      then show ?thesis using heap_dict_InrD by blast
    qed
  qed
  have new: "\<forall>a \<in> set (length h # ?out). length h \<le> a" by auto
  have disj: "set (length h # ?out) \<inter> set (data # rows) = {}"
    using old new by fastforce
  have dist: "distinct (length h # ?out)"
    by (auto simp: distinct_map inj_on_def)
  show ?thesis
    using call take_heap_after [of h ?rows] read_series_heap_after_old [OF assms(1), of ?rows]
      rows heap_list_heap_after [of h ?rows] dist disj new
      read_series_heap_after [of h ?rows] pure
    by (intro exI [of _ "length h"] exI [of _ ?h'] exI [of _ ?out] exI [of _ rows]) simp
qed

theorem compute_moving_average_leaves_input_witness:
  "read_series heap2 2 = Inr series2 \<and> (1::int) \<le> 4 \<and>
   (\<exists>result h' out rows.
      compute_moving_average_heap exact_ops heap2 2 4 = Inr (result, h') \<and>
      take (length heap2) h' = heap2 \<and>
      read_series h' 2 = Inr series2 \<and>
      heap_list heap2 2 = Inr rows \<and>
      heap_list h' result = Inr out \<and>
      distinct (result # out) \<and>
      set (result # out) \<inter> set (2 # rows) = {} \<and>
      (\<forall>a \<in> set (result # out). length heap2 \<le> a) \<and>
      read_series h' result = compute_moving_average exact_ops series2 4)"
proof -
  have h1: "read_series heap2 2 = Inr series2"
    by (simp add: read_series_def heap_list_def heap_dict_def heap2_def series2_def)
  have h2: "(1::int) \<le> 4" by simp
  from compute_moving_average_leaves_input [OF h1 h2, of exact_ops] h1 h2
  show ?thesis by blast
qed

text \<open>
  C10. For a window size \<open>w \<ge> 1\<close> the window of index \<open>i\<close> contains \<open>i\<close>:
  \<open>start \<le> i < end\<close>, and the input value at \<open>i\<close> is among the values averaged, at
  position \<open>i - start\<close>.
\<close>

theorem window_contains_own_index:
  assumes "1 \<le> w" and "i < length data"
  shows "window_start w i \<le> int i \<and> int i < window_end (length data) w i \<and>
         (\<exists>vs. window_values data (window_start w i) (window_end (length data) w i) = Inr vs \<and>
            vs ! nat (int i - window_start w i) = production (data ! i))"
proof -
  let ?a = "window_start w i" and ?b = "window_end (length data) w i"
  have a: "0 \<le> ?a" "?a \<le> int i" using window_start_nonneg window_start_le_index [of w i] assms(1) by simp_all
  have b: "int i < ?b" "?b \<le> int (length data)"
    using index_less_window_end [OF assms] window_end_le_length by simp_all
  have vs: "window_values data ?a ?b = Inr (map production (slice data ?a ?b))"
    by (rule window_values_slice [OF a(1) b(2)])
  have k: "int (nat (int i - ?a)) < ?b - ?a" using a b by simp
  have "slice data ?a ?b ! nat (int i - ?a) = data ! (nat ?a + nat (int i - ?a))"
    by (rule nth_slice [OF a(1) b(2) k])
  also have "nat ?a + nat (int i - ?a) = i" using a by simp
  finally have "map production (slice data ?a ?b) ! nat (int i - ?a) = production (data ! i)"
    using k a b by (simp add: length_slice)
  with a b vs show ?thesis by simp
qed

theorem window_contains_own_index_witness:
  "(1::int) \<le> 4 \<and> 5 < length series6 \<and>
   window_start 4 5 \<le> int 5 \<and> int 5 < window_end (length series6) 4 5"
proof -
  have h: "(1::int) \<le> 4" "5 < length series6" by (simp_all add: series6_def)
  from window_contains_own_index [OF h] h
  show ?thesis by simp
qed

end
